theory Spec2Isabelle
  imports Complex_Main "HOL-Library.Log_Nat"
begin

section \<open>Construction and parameter validation\<close>

text \<open>
  The generator of \<^verbatim>\<open>boy_surface.py\<close> stores two integers: the number of radial
  subdivisions and the number of vertices on each ring. \<open>resolution\<close> is a Python
  integer, \<open>ratio\<close> a Python float. A raise is a value of the sum type: the two
  \<^verbatim>\<open>ValueError\<close>s of \<^verbatim>\<open>__init__\<close> itself, and the errors that the interpreter raises
  inside \<^verbatim>\<open>ratio * resolution\<close> and \<^verbatim>\<open>round\<close>.
\<close>

datatype error = ValueError string | OverflowError string

record generator =
  n_r :: int
  n_phi :: int

subsection \<open>Binary64 floats\<close>

text \<open>
  A float is a finite rational, an infinity or a NaN. The sign of zero is not kept:
  no operation of \<^verbatim>\<open>__init__\<close> tells \<open>-0.0\<close> from \<open>0.0\<close>.
\<close>

datatype float64 = Fin rat | PosInf | NegInf | NaN

text \<open>
  Python's \<^verbatim>\<open>round\<close> on a float: to the nearest integer, a tie to the even one.
\<close>

definition py_round :: "rat \<Rightarrow> int" where
  "py_round x =
     (let f = \<lfloor>x\<rfloor>; d = x - of_int f
      in if d < 1 / 2 then f
         else if 1 / 2 < d then f + 1
         else if even f then f else f + 1)"

text \<open>
  \<open>ilog2 x\<close> is the exponent \<open>e\<close> with \<open>2^e \<le> x < 2^(e+1)\<close> for positive \<open>x\<close>.
  \<open>round_double\<close> rounds a rational to the nearest binary64 value, a tie to the even
  significand: 53 significant bits, least exponent \<open>-1022\<close> (below it the spacing
  stays \<open>2^-1074\<close>), and an infinity when the rounded magnitude reaches \<open>2^1024\<close>.
\<close>

definition ilog2 :: "rat \<Rightarrow> int" where
  "ilog2 x =
     (let (a, b) = quotient_of x; e = bitlen a - bitlen b
      in if 2 powi e \<le> x then e else e - 1)"

definition round_double :: "rat \<Rightarrow> float64" where
  "round_double x =
     (if x = 0 then Fin 0
      else
        let e = max (ilog2 \<bar>x\<bar>) (- 1022);
            ulp = 2 powi (e - 52);
            y = of_int (py_round (x / ulp)) * ulp
        in if 2 powi 1024 \<le> \<bar>y\<bar> then (if 0 < x then PosInf else NegInf) else Fin y)"

text \<open>
  The messages. The character after \<^verbatim>\<open>integer\<close> in the second one is U+2265, here in
  UTF-8. The last three are the interpreter's.
\<close>

definition msg_resolution :: string where
  "msg_resolution = ''resolution must be at least 2.''"

definition msg_ratio :: string where
  "msg_ratio = ''ratio * resolution must be an even integer ''
     @ [CHR 0xE2, CHR 0x89, CHR 0xA5] @ '' 4.''"

definition msg_int_too_large :: string where
  "msg_int_too_large = ''int too large to convert to float''"

definition msg_nan :: string where
  "msg_nan = ''cannot convert float NaN to integer''"

definition msg_infinity :: string where
  "msg_infinity = ''cannot convert float infinity to integer''"

text \<open>
  In \<^verbatim>\<open>ratio * resolution\<close> the integer is converted to a float first, correctly
  rounded, and the conversion raises \<^verbatim>\<open>OverflowError\<close> when the integer is too large.
  The product is the IEEE product: the exact product rounded, with the usual rules
  for NaN and the infinities.
\<close>

definition float_of_int :: "int \<Rightarrow> error + float64" where
  "float_of_int n =
     (case round_double (of_int n) of
        Fin y \<Rightarrow> Inr (Fin y)
      | _ \<Rightarrow> Inl (OverflowError msg_int_too_large))"

fun float_mul :: "float64 \<Rightarrow> float64 \<Rightarrow> float64" where
  "float_mul NaN _ = NaN"
| "float_mul _ NaN = NaN"
| "float_mul (Fin a) (Fin b) = round_double (a * b)"
| "float_mul (Fin a) PosInf = (if a = 0 then NaN else if 0 < a then PosInf else NegInf)"
| "float_mul (Fin a) NegInf = (if a = 0 then NaN else if 0 < a then NegInf else PosInf)"
| "float_mul PosInf (Fin b) = (if b = 0 then NaN else if 0 < b then PosInf else NegInf)"
| "float_mul NegInf (Fin b) = (if b = 0 then NaN else if 0 < b then NegInf else PosInf)"
| "float_mul PosInf PosInf = PosInf"
| "float_mul PosInf NegInf = NegInf"
| "float_mul NegInf PosInf = NegInf"
| "float_mul NegInf NegInf = PosInf"

text \<open>
  \<^verbatim>\<open>n_phi < 4\<close> compares a float with an integer exactly and is false for a NaN.
  \<^verbatim>\<open>round(n_phi)\<close> raises \<^verbatim>\<open>ValueError\<close> for a NaN and \<^verbatim>\<open>OverflowError\<close> for an
  infinity.
\<close>

fun float_lt_int :: "float64 \<Rightarrow> int \<Rightarrow> bool" where
  "float_lt_int (Fin a) k = (a < of_int k)"
| "float_lt_int PosInf k = False"
| "float_lt_int NegInf k = True"
| "float_lt_int NaN k = False"

fun float_round :: "float64 \<Rightarrow> error + int" where
  "float_round (Fin a) = Inr (py_round a)"
| "float_round PosInf = Inl (OverflowError msg_infinity)"
| "float_round NegInf = Inl (OverflowError msg_infinity)"
| "float_round NaN = Inl (ValueError msg_nan)"

definition init :: "int \<Rightarrow> float64 \<Rightarrow> error + generator" where
  "init resolution ratio =
     (if resolution < 2 then Inl (ValueError msg_resolution)
      else
        case float_of_int resolution of
          Inl e \<Rightarrow> Inl e
        | Inr fr \<Rightarrow>
            let p = float_mul ratio fr
            in if float_lt_int p 4 then Inl (ValueError msg_ratio)
               else
                 case float_round p of
                   Inl e \<Rightarrow> Inl e
                 | Inr k \<Rightarrow>
                     if k mod 2 \<noteq> 0 then Inl (ValueError msg_ratio)
                     else Inr \<lparr>n_r = resolution, n_phi = k\<rparr>)"

section \<open>Bryant-Kusner immersion\<close>

text \<open>
  The evaluator over exact complex numbers. NumPy does not raise on a division by
  zero: it yields an infinity or a NaN, and the result of \<^verbatim>\<open>_xyz\<close> is then not
  finite. That outcome is \<open>None\<close>.
\<close>

definition denom :: "complex \<Rightarrow> complex" where
  "denom w = w ^ 6 + complex_of_real (sqrt 5) * w ^ 3 - 1"

definition g1 :: "complex \<Rightarrow> real" where
  "g1 w = - (3 / 2) * Im (w * (1 - w ^ 4) / denom w)"

definition g2 :: "complex \<Rightarrow> real" where
  "g2 w = - (3 / 2) * Re (w * (1 + w ^ 4) / denom w)"

definition g3 :: "complex \<Rightarrow> real" where
  "g3 w = Im ((1 + w ^ 6) / denom w) - 1 / 2"

definition gsum :: "complex \<Rightarrow> real" where
  "gsum w = (g1 w)\<^sup>2 + (g2 w)\<^sup>2 + (g3 w)\<^sup>2"

definition xyz :: "complex \<Rightarrow> (real \<times> real \<times> real) option" where
  "xyz w =
     (if denom w = 0 \<or> gsum w = 0 then None
      else Some (g1 w / gsum w, g2 w / gsum w, g3 w / gsum w))"

section \<open>The build routine\<close>

text \<open>\<^verbatim>\<open>range(n)\<close> over Python integers.\<close>

definition range_py :: "int \<Rightarrow> int list" where
  "range_py n = [0..n - 1]"

text \<open>
  \<^verbatim>\<open>np.linspace(start, stop, num, endpoint)\<close>: \<open>num\<close> samples \<open>start + i * step\<close>.
\<close>

definition linspace :: "real \<Rightarrow> real \<Rightarrow> int \<Rightarrow> bool \<Rightarrow> real list" where
  "linspace start stop num endpoint =
     (let d = (if endpoint then num - 1 else num);
          step = (stop - start) / of_int d
      in map (\<lambda>i. start + of_int i * step) (range_py num))"

definition r_vals :: "generator \<Rightarrow> real list" where
  "r_vals gen = tl (linspace 0 1 (n_r gen) True)"

definition phi_vals :: "generator \<Rightarrow> real list" where
  "phi_vals gen = linspace 0 (2 * pi) (n_phi gen) False"

text \<open>The grid \<^verbatim>\<open>w = R * np.exp(1j * Phi)\<close>, flattened ring by ring.\<close>

definition w_grid :: "generator \<Rightarrow> complex list" where
  "w_grid gen =
     concat (map (\<lambda>r. map (\<lambda>phi. of_real r * exp (\<i> * of_real phi)) (phi_vals gen))
       (r_vals gen))"

definition verts :: "generator \<Rightarrow> (real \<times> real \<times> real) option list" where
  "verts gen = xyz 0 # map xyz (w_grid gen)"

subsection \<open>Helper indices (1-based)\<close>

definition centre_idx :: int where
  "centre_idx = 1"

definition first_ring_start :: int where
  "first_ring_start = 2"

definition outer_ring_start :: "generator \<Rightarrow> int" where
  "outer_ring_start gen = first_ring_start + (n_r gen - 2) * n_phi gen"

definition half_turn :: "int \<Rightarrow> int" where
  "half_turn ring = ring div 2"

subsection \<open>Faces\<close>

type_synonym face = "int \<times> int \<times> int"

text \<open>Each loop of the source extends the list \<open>faces\<close> built so far.\<close>

definition radial_strips :: "generator \<Rightarrow> face list \<Rightarrow> face list" where
  "radial_strips gen faces =
     (let ring = n_phi gen
      in fold (\<lambda>i faces.
           let inner = first_ring_start + i * ring;
               outer = inner + ring
           in fold (\<lambda>j faces.
                let a = inner + j;
                    b = outer + j;
                    c = outer + (j + 1) mod ring;
                    d = inner + (j + 1) mod ring
                in faces @ [(a, b, c), (a, c, d)]) (range_py ring) faces)
           (range_py (n_r gen - 2)) faces)"

definition mobius_strip :: "generator \<Rightarrow> face list \<Rightarrow> face list" where
  "mobius_strip gen faces =
     (let ring = n_phi gen
      in fold (\<lambda>j faces.
           let a = outer_ring_start gen + j;
               an = outer_ring_start gen + (j + 1) mod ring;
               b = outer_ring_start gen + (j + half_turn ring) mod ring;
               bn = outer_ring_start gen + (j + half_turn ring + 1) mod ring
           in faces @ [(an, b, a), (an, bn, b)]) (range_py ring) faces)"

definition central_fan :: "generator \<Rightarrow> face list \<Rightarrow> face list" where
  "central_fan gen faces =
     (let ring = n_phi gen
      in fold (\<lambda>j faces.
           let v2 = first_ring_start + j;
               v3 = first_ring_start + (j + 1) mod ring
           in faces @ [(centre_idx, v3, v2)]) (range_py ring) faces)"

definition build_faces :: "generator \<Rightarrow> face list" where
  "build_faces gen = central_fan gen (mobius_strip gen (radial_strips gen []))"

text \<open>The vertex list and the face list handed to the host's mesh constructor.\<close>

definition build :: "generator \<Rightarrow> (real \<times> real \<times> real) option list \<times> face list" where
  "build gen = (verts gen, build_faces gen)"

section \<open>Notions of the specification\<close>

text \<open>
  The vertex list holds the centre first and then the rings, innermost first, each
  ring by increasing angle. \<open>ring_vertex gen i j\<close> is the 1-based position in that list
  of the vertex at angular index \<open>j\<close> on ring \<open>i\<close> (rings counted from 0).
\<close>

definition ring_vertex :: "generator \<Rightarrow> int \<Rightarrow> int \<Rightarrow> int" where
  "ring_vertex gen i j = 2 + i * n_phi gen + j"

text \<open>
  The opposite-index function of the half-turn pairing, \<open>(j + n_phi/2) mod n_phi\<close>.
\<close>

definition opposite :: "int \<Rightarrow> int \<Rightarrow> int" where
  "opposite n j = (j + n div 2) mod n"

text \<open>
  The triangles that one pass of each loop body contributes, written with
  \<open>ring_vertex\<close>: a cell of the strip between ring \<open>i\<close> and ring \<open>i + 1\<close>, a cell of
  the join on the last ring \<open>n_r - 2\<close>, and a triangle of the fan.
\<close>

definition strip_cell :: "generator \<Rightarrow> int \<Rightarrow> int \<Rightarrow> face list" where
  "strip_cell gen i j =
     [(ring_vertex gen i j, ring_vertex gen (i + 1) j,
       ring_vertex gen (i + 1) ((j + 1) mod n_phi gen)),
      (ring_vertex gen i j, ring_vertex gen (i + 1) ((j + 1) mod n_phi gen),
       ring_vertex gen i ((j + 1) mod n_phi gen))]"

definition mobius_cell :: "generator \<Rightarrow> int \<Rightarrow> face list" where
  "mobius_cell gen j =
     [(ring_vertex gen (n_r gen - 2) ((j + 1) mod n_phi gen),
       ring_vertex gen (n_r gen - 2) (opposite (n_phi gen) j),
       ring_vertex gen (n_r gen - 2) j),
      (ring_vertex gen (n_r gen - 2) ((j + 1) mod n_phi gen),
       ring_vertex gen (n_r gen - 2) ((j + n_phi gen div 2 + 1) mod n_phi gen),
       ring_vertex gen (n_r gen - 2) (opposite (n_phi gen) j))]"

definition fan_cell :: "generator \<Rightarrow> int \<Rightarrow> face list" where
  "fan_cell gen j = [(1, ring_vertex gen 0 ((j + 1) mod n_phi gen), ring_vertex gen 0 j)]"

text \<open>
  A face is well formed for a list of \<open>N\<close> vertices when its three indices lie in
  \<open>1..N\<close> and are pairwise distinct; a face uses a vertex when the vertex is one of its
  corners.
\<close>

fun valid_face :: "int \<Rightarrow> face \<Rightarrow> bool" where
  "valid_face N (a, b, c) =
     (1 \<le> a \<and> a \<le> N \<and> 1 \<le> b \<and> b \<le> N \<and> 1 \<le> c \<and> c \<le> N
      \<and> a \<noteq> b \<and> b \<noteq> c \<and> a \<noteq> c)"

fun uses_vertex :: "int \<Rightarrow> face \<Rightarrow> bool" where
  "uses_vertex v (a, b, c) = (v = a \<or> v = b \<or> v = c)"

text \<open>
  The message carried by an error, and whether a text occurs in another as a
  contiguous piece.
\<close>

fun error_text :: "error \<Rightarrow> string" where
  "error_text (ValueError m) = m"
| "error_text (OverflowError m) = m"

fun starts_with :: "string \<Rightarrow> string \<Rightarrow> bool" where
  "starts_with [] ys = True"
| "starts_with (x # xs) [] = False"
| "starts_with (x # xs) (y # ys) = (x = y \<and> starts_with xs ys)"

fun contains :: "string \<Rightarrow> string \<Rightarrow> bool" where
  "contains xs [] = (xs = [])"
| "contains xs (y # ys) = (starts_with xs (y # ys) \<or> contains xs ys)"

text \<open>
  The value of \<open>w\<^sup>3\<close> at which the denominator of the evaluator vanishes inside the
  unit disc.
\<close>

definition pole :: real where
  "pole = (3 - sqrt 5) / 2"

section \<open>The face list in closed form\<close>

text \<open>
  A loop that extends the list by \<open>f j\<close> at every pass appends the concatenation of
  all \<open>f j\<close>.
\<close>

lemma fold_extend: "fold (\<lambda>j fs. fs @ f j) xs acc = acc @ concat (map f xs)"
  by (induction xs arbitrary: acc) simp_all

lemma length_range_py: "length (range_py n) = nat n"
  by (simp add: range_py_def)

lemma nth_range_py: "0 \<le> j \<Longrightarrow> j < n \<Longrightarrow> range_py n ! nat j = j"
  by (simp add: range_py_def)

lemma set_range_py: "set (range_py n) = {j. 0 \<le> j \<and> j < n}"
  by (auto simp: range_py_def)

lemma radial_strips_eq:
  "radial_strips gen fs =
     fs @ concat (map (\<lambda>i. concat (map (strip_cell gen i) (range_py (n_phi gen))))
            (range_py (n_r gen - 2)))"
proof -
  have cell: "\<And>i j. [(first_ring_start + i * n_phi gen + j,
        first_ring_start + i * n_phi gen + n_phi gen + j,
        first_ring_start + i * n_phi gen + n_phi gen + (j + 1) mod n_phi gen),
       (first_ring_start + i * n_phi gen + j,
        first_ring_start + i * n_phi gen + n_phi gen + (j + 1) mod n_phi gen,
        first_ring_start + i * n_phi gen + (j + 1) mod n_phi gen)] = strip_cell gen i j"
    by (simp add: strip_cell_def ring_vertex_def first_ring_start_def algebra_simps)
  have inner: "\<And>i acc. fold (\<lambda>j faces. faces @ strip_cell gen i j) (range_py (n_phi gen)) acc
      = acc @ concat (map (strip_cell gen i) (range_py (n_phi gen)))"
    by (rule fold_extend)
  show ?thesis
    unfolding radial_strips_def Let_def cell inner
    by (rule fold_extend)
qed

lemma mobius_strip_eq:
  "mobius_strip gen fs = fs @ concat (map (mobius_cell gen) (range_py (n_phi gen)))"
proof -
  have cell: "\<And>j. [(outer_ring_start gen + (j + 1) mod n_phi gen,
        outer_ring_start gen + (j + half_turn (n_phi gen)) mod n_phi gen,
        outer_ring_start gen + j),
       (outer_ring_start gen + (j + 1) mod n_phi gen,
        outer_ring_start gen + (j + half_turn (n_phi gen) + 1) mod n_phi gen,
        outer_ring_start gen + (j + half_turn (n_phi gen)) mod n_phi gen)] = mobius_cell gen j"
    by (simp add: mobius_cell_def ring_vertex_def outer_ring_start_def first_ring_start_def
        half_turn_def opposite_def)
  show ?thesis
    unfolding mobius_strip_def Let_def cell
    by (rule fold_extend)
qed

lemma central_fan_eq:
  "central_fan gen fs = fs @ concat (map (fan_cell gen) (range_py (n_phi gen)))"
proof -
  have cell: "\<And>j. [(centre_idx, first_ring_start + (j + 1) mod n_phi gen, first_ring_start + j)]
       = fan_cell gen j"
    by (simp add: fan_cell_def ring_vertex_def centre_idx_def first_ring_start_def)
  show ?thesis
    unfolding central_fan_def Let_def cell
    by (rule fold_extend)
qed

lemma build_faces_eq:
  "build_faces gen =
     concat (map (\<lambda>i. concat (map (strip_cell gen i) (range_py (n_phi gen))))
       (range_py (n_r gen - 2)))
     @ concat (map (mobius_cell gen) (range_py (n_phi gen)))
     @ concat (map (fan_cell gen) (range_py (n_phi gen)))"
  by (simp add: build_faces_def central_fan_eq mobius_strip_eq radial_strips_eq)

lemma length_concat_blocks:
  "(\<And>x. x \<in> set xs \<Longrightarrow> length (f x) = k) \<Longrightarrow> length (concat (map f xs)) = length xs * k"
  by (induction xs) simp_all

lemma nth_concat_blocks:
  "(\<And>x. x \<in> set xs \<Longrightarrow> length (f x) = k) \<Longrightarrow> i < length xs \<Longrightarrow> r < k \<Longrightarrow>
     concat (map f xs) ! (i * k + r) = f (xs ! i) ! r"
proof (induction xs arbitrary: i)
  case Nil
  then show ?case by simp
next
  case (Cons x xs)
  show ?case
  proof (cases i)
    case 0
    with Cons.prems show ?thesis by (simp add: nth_append)
  next
    case (Suc i')
    have "concat (map f (x # xs)) ! (i * k + r) = concat (map f xs) ! (i' * k + r)"
      using Cons.prems Suc by (simp add: nth_append)
    also have "\<dots> = f (xs ! i') ! r"
      using Cons.prems Suc by (intro Cons.IH) simp_all
    finally show ?thesis using Suc by simp
  qed
qed

lemma length_strip_row:
  "length (concat (map (strip_cell gen i) (range_py (n_phi gen)))) = nat (n_phi gen) * 2"
  by (subst length_concat_blocks [where k = 2]) (simp_all add: strip_cell_def length_range_py)

lemma length_radial:
  "length (concat (map (\<lambda>i. concat (map (strip_cell gen i) (range_py (n_phi gen))))
       (range_py (n_r gen - 2)))) = nat (n_r gen - 2) * (nat (n_phi gen) * 2)"
  by (subst length_concat_blocks [where k = "nat (n_phi gen) * 2"])
    (simp_all add: length_strip_row length_range_py)

lemma length_mobius:
  "length (concat (map (mobius_cell gen) (range_py (n_phi gen)))) = nat (n_phi gen) * 2"
  by (subst length_concat_blocks [where k = 2]) (simp_all add: mobius_cell_def length_range_py)

lemma length_fan:
  "length (concat (map (fan_cell gen) (range_py (n_phi gen)))) = nat (n_phi gen)"
  by (subst length_concat_blocks [where k = 1]) (simp_all add: fan_cell_def length_range_py)

lemma length_build_faces:
  "length (build_faces gen) = nat (n_r gen - 2) * (nat (n_phi gen) * 2) + nat (n_phi gen) * 2 + nat (n_phi gen)"
  by (simp add: build_faces_eq length_radial length_mobius length_fan)

lemma length_linspace: "length (linspace a b n e) = nat n"
  by (simp add: linspace_def Let_def length_range_py)

lemma length_w_grid: "length (w_grid gen) = nat (n_r gen - 1) * nat (n_phi gen)"
proof -
  have "length (w_grid gen) = length (r_vals gen) * nat (n_phi gen)"
    unfolding w_grid_def
    by (rule length_concat_blocks) (simp add: phi_vals_def length_linspace)
  moreover have "nat (n_r gen) - 1 = nat (n_r gen - 1)"
    by arith
  ultimately show ?thesis
    by (simp add: r_vals_def length_linspace)
qed

lemma length_verts: "length (verts gen) = 1 + nat (n_r gen - 1) * nat (n_phi gen)"
  by (simp add: verts_def length_w_grid)

lemma mod_wrap:
  fixes x n :: int
  assumes "0 \<le> x" and "x < 2 * n"
  shows "x mod n = (if x < n then x else x - n)"
proof (cases "x < n")
  case True
  with assms show ?thesis by simp
next
  case False
  have "(x - n) mod n = x - n"
    using assms False by (intro mod_pos_pos_trivial) simp_all
  moreover have "(x - n) mod n = x mod n" by simp
  ultimately show ?thesis using False by simp
qed

lemma nat_eqI: "x = int y \<Longrightarrow> nat x = y"
  by simp

lemma radial_nth:
  assumes "i < nat (n_r gen - 2)" and "j < nat (n_phi gen)" and "r < 2"
  shows "build_faces gen ! (i * (nat (n_phi gen) * 2) + (j * 2 + r))
     = strip_cell gen (int i) (int j) ! r"
proof -
  let ?row = "\<lambda>i. concat (map (strip_cell gen i) (range_py (n_phi gen)))"
  let ?rad = "concat (map ?row (range_py (n_r gen - 2)))"
  have lt: "j * 2 + r < nat (n_phi gen) * 2" using assms by simp
  have "i * (nat (n_phi gen) * 2) + (j * 2 + r) < length ?rad"
  proof -
    have "i * (nat (n_phi gen) * 2) + (j * 2 + r) < Suc i * (nat (n_phi gen) * 2)"
      using lt by simp
    also have "\<dots> \<le> nat (n_r gen - 2) * (nat (n_phi gen) * 2)"
      using assms(1) by (intro mult_le_mono1) simp
    finally show ?thesis by (simp add: length_radial)
  qed
  then have "build_faces gen ! (i * (nat (n_phi gen) * 2) + (j * 2 + r))
      = ?rad ! (i * (nat (n_phi gen) * 2) + (j * 2 + r))"
    by (simp add: build_faces_eq nth_append)
  also have "\<dots> = ?row (range_py (n_r gen - 2) ! i) ! (j * 2 + r)"
    using assms(1) lt
    by (intro nth_concat_blocks) (simp_all add: length_strip_row length_range_py)
  also have "range_py (n_r gen - 2) ! i = int i"
    using nth_range_py [of "int i" "n_r gen - 2"] assms(1) by simp
  also have "?row (int i) ! (j * 2 + r) = strip_cell gen (int i) (range_py (n_phi gen) ! j) ! r"
    using assms(2,3)
    by (intro nth_concat_blocks) (simp_all add: strip_cell_def length_range_py)
  also have "range_py (n_phi gen) ! j = int j"
    using nth_range_py [of "int j" "n_phi gen"] assms(2) by simp
  finally show ?thesis .
qed

lemma mobius_nth:
  assumes "j < nat (n_phi gen)" and "r < 2"
  shows "build_faces gen ! (nat (n_r gen - 2) * (nat (n_phi gen) * 2) + (j * 2 + r))
     = mobius_cell gen (int j) ! r"
proof -
  let ?mob = "concat (map (mobius_cell gen) (range_py (n_phi gen)))"
  have lt: "j * 2 + r < nat (n_phi gen) * 2" using assms by simp
  have "build_faces gen ! (nat (n_r gen - 2) * (nat (n_phi gen) * 2) + (j * 2 + r))
      = ?mob ! (j * 2 + r)"
    using lt by (simp add: build_faces_eq nth_append length_radial length_mobius)
  also have "\<dots> = mobius_cell gen (range_py (n_phi gen) ! j) ! r"
    using assms
    by (intro nth_concat_blocks) (simp_all add: mobius_cell_def length_range_py)
  also have "range_py (n_phi gen) ! j = int j"
    using nth_range_py [of "int j" "n_phi gen"] assms(1) by simp
  finally show ?thesis .
qed

lemma fan_nth:
  assumes "j < nat (n_phi gen)"
  shows "build_faces gen ! (nat (n_r gen - 2) * (nat (n_phi gen) * 2) + nat (n_phi gen) * 2 + j)
     = fan_cell gen (int j) ! 0"
proof -
  let ?fan = "concat (map (fan_cell gen) (range_py (n_phi gen)))"
  have "build_faces gen ! (nat (n_r gen - 2) * (nat (n_phi gen) * 2) + nat (n_phi gen) * 2 + j)
      = ?fan ! (j * 1 + 0)"
    by (simp add: build_faces_eq nth_append length_radial length_mobius)
  also have "\<dots> = fan_cell gen (range_py (n_phi gen) ! j) ! 0"
    using assms
    by (intro nth_concat_blocks) (simp_all add: fan_cell_def length_range_py)
  also have "range_py (n_phi gen) ! j = int j"
    using nth_range_py [of "int j" "n_phi gen"] assms(1) by simp
  finally show ?thesis .
qed

lemma build_faces_cases:
  "f \<in> set (build_faces gen) \<longleftrightarrow>
     (\<exists>i j. 0 \<le> i \<and> i < n_r gen - 2 \<and> 0 \<le> j \<and> j < n_phi gen \<and> f \<in> set (strip_cell gen i j))
     \<or> (\<exists>j. 0 \<le> j \<and> j < n_phi gen \<and> f \<in> set (mobius_cell gen j))
     \<or> (\<exists>j. 0 \<le> j \<and> j < n_phi gen \<and> f \<in> set (fan_cell gen j))"
  unfolding build_faces_eq by (auto simp: set_range_py)

lemma succ_mod_range:
  fixes j n :: int
  assumes "0 \<le> j" and "j < n" and "2 \<le> n"
  shows "0 \<le> (j + 1) mod n" and "(j + 1) mod n < n" and "(j + 1) mod n \<noteq> j"
  using assms mod_wrap [of "j + 1" n] by (simp_all split: if_splits)

lemma strip_cell_valid:
  assumes "0 \<le> i" and "i < n_r gen - 2" and "0 \<le> j" and "j < n_phi gen" and "2 \<le> n_phi gen"
    and "f \<in> set (strip_cell gen i j)"
  shows "valid_face (1 + (n_r gen - 1) * n_phi gen) f"
proof -
  define n where "n = n_phi gen"
  define k where "k = (j + 1) mod n"
  define X where "X = i * n"
  have k: "0 \<le> k" "k < n" "k \<noteq> j"
    using succ_mod_range [of j n] assms by (simp_all add: k_def n_def)
  have X0: "0 \<le> X" using assms by (simp add: X_def n_def)
  have "(i + 2) * n \<le> (n_r gen - 1) * n"
    using assms by (intro mult_right_mono) (simp_all add: n_def)
  then have X1: "X + 2 * n \<le> (n_r gen - 1) * n"
    by (simp add: X_def algebra_simps)
  have rv: "ring_vertex gen i j = 2 + X + j" "ring_vertex gen i k = 2 + X + k"
    "ring_vertex gen (i + 1) j = 2 + X + n + j" "ring_vertex gen (i + 1) k = 2 + X + n + k"
    by (simp_all add: ring_vertex_def X_def n_def algebra_simps)
  have "f = (2 + X + j, 2 + X + n + j, 2 + X + n + k) \<or> f = (2 + X + j, 2 + X + n + k, 2 + X + k)"
    using assms(6) unfolding strip_cell_def n_def [symmetric] k_def [symmetric] rv by simp
  then show ?thesis
    unfolding n_def [symmetric] using k X0 X1 assms(3,4,5) n_def by auto
qed

lemma mobius_cell_valid:
  assumes "2 \<le> n_r gen" and "even (n_phi gen)" and "4 \<le> n_phi gen"
    and "0 \<le> j" and "j < n_phi gen" and "f \<in> set (mobius_cell gen j)"
  shows "valid_face (1 + (n_r gen - 1) * n_phi gen) f"
proof -
  define n where "n = n_phi gen"
  from assms(2) obtain h where h: "n = 2 * h" unfolding n_def by (elim evenE)
  have h2: "2 \<le> h" using assms(3) h n_def by simp
  define k where "k = (j + 1) mod n"
  define p where "p = (j + h) mod n"
  define q where "q = (j + h + 1) mod n"
  define X where "X = (n_r gen - 2) * n"
  have k: "k = (if j + 1 < n then j + 1 else j + 1 - n)"
    unfolding k_def using assms(4,5) n_def by (intro mod_wrap) simp_all
  have p: "p = (if j + h < n then j + h else j + h - n)"
    unfolding p_def using assms(4,5) n_def h h2 by (intro mod_wrap) simp_all
  have q: "q = (if j + h + 1 < n then j + h + 1 else j + h + 1 - n)"
    unfolding q_def using assms(4,5) n_def h h2 by (intro mod_wrap) simp_all
  have X0: "0 \<le> X" using assms(1,3) by (simp add: X_def n_def)
  have X1: "X + n = (n_r gen - 1) * n"
    by (simp add: X_def algebra_simps)
  have hn: "n div 2 = h" using h by simp
  have "f = (2 + X + k, 2 + X + p, 2 + X + j) \<or> f = (2 + X + k, 2 + X + q, 2 + X + p)"
    using assms(6)
    unfolding mobius_cell_def ring_vertex_def opposite_def n_def [symmetric] hn
      k_def [symmetric] p_def [symmetric] q_def [symmetric] X_def [symmetric]
    by simp
  then show ?thesis
    unfolding n_def [symmetric] X1 [symmetric]
    using k p q X0 h h2 assms(4,5) n_def by (auto split: if_splits)
qed

lemma fan_cell_valid:
  assumes "2 \<le> n_r gen" and "2 \<le> n_phi gen"
    and "0 \<le> j" and "j < n_phi gen" and "f \<in> set (fan_cell gen j)"
  shows "valid_face (1 + (n_r gen - 1) * n_phi gen) f"
proof -
  define n where "n = n_phi gen"
  define k where "k = (j + 1) mod n"
  have k: "0 \<le> k" "k < n" "k \<noteq> j"
    using succ_mod_range [of j n] assms by (simp_all add: k_def n_def)
  define Y where "Y = (n_r gen - 1) * n_phi gen"
  have "1 * n \<le> (n_r gen - 1) * n"
    using assms by (intro mult_right_mono) (simp_all add: n_def)
  then have X1: "n \<le> Y" by (simp add: Y_def n_def)
  have "f = (1, 2 + k, 2 + j)"
    using assms(5) unfolding fan_cell_def ring_vertex_def n_def [symmetric] k_def [symmetric]
    by simp
  then show ?thesis
    unfolding Y_def [symmetric] using k X1 assms(3,4) n_def by auto
qed

section \<open>Construction\<close>

text \<open>
  The exponent computed by \<open>ilog2\<close> is the right one, so \<open>round_double\<close> can be
  evaluated from any exponent that brackets the argument; its result is a multiple
  of the spacing at most half a spacing away.
\<close>

lemma powi_bitlen:
  assumes "0 < a"
  shows "(2::rat) powi (bitlen a - 1) \<le> of_int a" and "of_int a < (2::rat) powi bitlen a"
proof -
  have b: "1 \<le> bitlen a" using assms by (simp add: bitlen_alt_def)
  from bitlen_bounds [OF assms]
  have lo: "2 ^ nat (bitlen a - 1) \<le> a" and hi: "a < 2 ^ nat (bitlen a)" by simp_all
  have "(2::rat) powi (bitlen a - 1) = of_int (2 ^ nat (bitlen a - 1))"
    using b by (simp add: power_int_def)
  also have "\<dots> \<le> of_int a" using lo by (simp only: of_int_le_iff)
  finally show "(2::rat) powi (bitlen a - 1) \<le> of_int a" .
  have "(of_int a :: rat) < of_int (2 ^ nat (bitlen a))" using hi by (simp only: of_int_less_iff)
  also have "\<dots> = 2 powi bitlen a" using b by (simp add: power_int_def)
  finally show "of_int a < (2::rat) powi bitlen a" .
qed

lemma ilog2_bounds:
  assumes "0 < x"
  shows "2 powi ilog2 x \<le> x" and "x < 2 powi (ilog2 x + 1)"
proof -
  obtain a b where q: "quotient_of x = (a, b)" by force
  have b: "0 < b" using q by (rule quotient_of_denom_pos)
  have x: "x = of_int a / of_int b" using q by (rule quotient_of_div)
  have a: "0 < a" using assms b x by (simp add: zero_less_divide_iff)
  define e where "e = bitlen a - bitlen b"
  have "x < (2::rat) powi bitlen a / of_int b"
    unfolding x using powi_bitlen(2) [OF a] b by (simp add: divide_strict_right_mono)
  also have "\<dots> \<le> (2::rat) powi bitlen a / 2 powi (bitlen b - 1)"
    using powi_bitlen(1) [OF b] by (intro divide_left_mono) (simp_all add: b)
  also have "\<dots> = 2 powi (e + 1)"
    by (simp add: e_def power_int_diff [symmetric] algebra_simps)
  finally have hi: "x < 2 powi (e + 1)" .
  have "(2::rat) powi (e - 1) = 2 powi (bitlen a - 1) / 2 powi bitlen b"
    by (simp add: e_def power_int_diff [symmetric] algebra_simps)
  also have "\<dots> \<le> of_int a / 2 powi bitlen b"
    using powi_bitlen(1) [OF a] by (intro divide_right_mono) simp_all
  also have "\<dots> \<le> of_int a / of_int b"
    using powi_bitlen(2) [OF b] a b by (intro divide_left_mono) simp_all
  finally have lo: "2 powi (e - 1) \<le> x" by (simp add: x)
  have r: "ilog2 x = (if 2 powi e \<le> x then e else e - 1)"
    by (simp add: ilog2_def q e_def)
  show "2 powi ilog2 x \<le> x" using lo by (simp add: r)
  show "x < 2 powi (ilog2 x + 1)" using hi by (simp add: r)
qed

lemma ilog2_eqI:
  assumes "2 powi e \<le> x" and "x < 2 powi (e + 1)"
  shows "ilog2 x = e"
proof -
  have "(0::rat) < 2 powi e" by simp
  then have x: "0 < x" using assms(1) by (rule less_le_trans)
  note b = ilog2_bounds [OF x]
  have "ilog2 x < e + 1"
  proof (rule ccontr)
    assume "\<not> ilog2 x < e + 1"
    then have "(2::rat) powi (e + 1) \<le> 2 powi ilog2 x"
      by (intro power_int_increasing) simp_all
    with b(1) assms(2) show False by simp
  qed
  moreover have "e < ilog2 x + 1"
  proof (rule ccontr)
    assume "\<not> e < ilog2 x + 1"
    then have "(2::rat) powi (ilog2 x + 1) \<le> 2 powi e"
      by (intro power_int_increasing) simp_all
    with b(2) assms(1) show False by simp
  qed
  ultimately show ?thesis by simp
qed

lemma round_double_eq:
  assumes "2 powi e \<le> \<bar>x\<bar>" and "\<bar>x\<bar> < 2 powi (e + 1)"
  shows "round_double x =
     (let ulp = 2 powi (max e (- 1022) - 52);
          y = of_int (py_round (x / ulp)) * ulp
      in if 2 powi 1024 \<le> \<bar>y\<bar> then (if 0 < x then PosInf else NegInf) else Fin y)"
proof -
  have "(0::rat) < 2 powi e" by simp
  then have "0 < \<bar>x\<bar>" using assms(1) by (rule less_le_trans)
  then have "x \<noteq> 0" by simp
  moreover have "ilog2 \<bar>x\<bar> = e" using assms by (rule ilog2_eqI)
  ultimately show ?thesis by (simp add: round_double_def Let_def)
qed

lemma py_round_ge_floor: "\<lfloor>x\<rfloor> \<le> py_round x"
  by (simp add: py_round_def Let_def)

lemma py_round_ge:
  assumes "of_int k \<le> x"
  shows "k \<le> py_round x"
proof -
  from assms have "k \<le> \<lfloor>x\<rfloor>" by (simp add: le_floor_iff)
  then show ?thesis using py_round_ge_floor [of x] by simp
qed

lemma floor_numeral_div: "\<lfloor>numeral a / numeral b :: rat\<rfloor> = numeral a div numeral b"
  using floor_divide_of_int_eq [of "numeral a" "numeral b", where ?'a = rat] by simp

lemma py_round_of_int: "py_round (of_int k) = k"
  by (simp add: py_round_def Let_def)

lemma py_round_nearest: "\<bar>of_int (py_round x) - x\<bar> \<le> 1 / 2"
proof -
  have "of_int \<lfloor>x\<rfloor> \<le> x" "x < of_int \<lfloor>x\<rfloor> + 1" by linarith+
  then show ?thesis
    by (auto simp: py_round_def Let_def abs_le_iff)
qed

lemma py_round_tie_even: "x - of_int \<lfloor>x\<rfloor> = 1 / 2 \<Longrightarrow> even (py_round x)"
  by (simp add: py_round_def Let_def)

lemma round_double_nearest:
  assumes "2 powi e \<le> \<bar>x\<bar>" and "\<bar>x\<bar> < 2 powi (e + 1)" and "round_double x = Fin y"
  shows "\<bar>y - x\<bar> \<le> 2 powi (max e (- 1022) - 52) / 2"
    and "\<exists>m. y = of_int m * 2 powi (max e (- 1022) - 52)"
proof -
  define ulp :: rat where "ulp = 2 powi (max e (- 1022) - 52)"
  have ulp: "0 < ulp" by (simp add: ulp_def)
  have y: "y = of_int (py_round (x / ulp)) * ulp"
    using assms(3) unfolding round_double_eq [OF assms(1,2)] Let_def ulp_def [symmetric]
    by (simp split: if_splits)
  have "y - x = (of_int (py_round (x / ulp)) - x / ulp) * ulp"
    using ulp by (simp add: y algebra_simps)
  then have "\<bar>y - x\<bar> = \<bar>of_int (py_round (x / ulp)) - x / ulp\<bar> * ulp"
    using ulp by (simp add: abs_mult)
  also have "\<dots> \<le> 1 / 2 * ulp"
    using ulp py_round_nearest [of "x / ulp"] by (intro mult_right_mono) simp_all
  finally show "\<bar>y - x\<bar> \<le> 2 powi (max e (- 1022) - 52) / 2"
    by (simp add: ulp_def)
  show "\<exists>m. y = of_int m * 2 powi (max e (- 1022) - 52)"
    using y unfolding ulp_def by blast
qed

text \<open>
  Integers below \<open>2^53\<close> in magnitude convert exactly.
\<close>

lemma round_double_int:
  assumes "\<bar>n\<bar> < 2 ^ 53"
  shows "round_double (of_int n) = Fin (of_int n)"
proof (cases "n = 0")
  case True
  then show ?thesis by (simp add: round_double_def)
next
  case False
  define x :: rat where "x = of_int n"
  define e where "e = ilog2 \<bar>x\<bar>"
  have x1: "1 \<le> \<bar>x\<bar>" using False by (simp add: x_def flip: of_int_abs)
  have x2: "\<bar>x\<bar> < 2 ^ 53"
  proof -
    have "(of_int \<bar>n\<bar> :: rat) < of_int (2 ^ 53)" using assms by (simp only: of_int_less_iff)
    then show ?thesis by (simp add: x_def)
  qed
  have pos: "0 < \<bar>x\<bar>" using x1 by simp
  have lo: "2 powi e \<le> \<bar>x\<bar>" and hi: "\<bar>x\<bar> < 2 powi (e + 1)"
    unfolding e_def using ilog2_bounds [OF pos] by simp_all
  have e0: "0 \<le> e"
  proof (rule ccontr)
    assume "\<not> 0 \<le> e"
    then have "(2::rat) powi (e + 1) \<le> 2 powi 0" by (intro power_int_increasing) simp_all
    with hi x1 show False by simp
  qed
  have e52: "e \<le> 52"
  proof (rule ccontr)
    assume "\<not> e \<le> 52"
    then have "(2::rat) powi 53 \<le> 2 powi e" by (intro power_int_increasing) simp_all
    with lo x2 show False by simp
  qed
  define k where "k = nat (52 - e)"
  have ulp: "(2::rat) powi (max e (- 1022) - 52) = 1 / 2 ^ k"
  proof -
    have "max e (- 1022) - 52 = - int k" using e0 e52 by (simp add: k_def)
    then show ?thesis by (simp add: power_int_minus_divide)
  qed
  have q: "x / (1 / 2 ^ k) = of_int (n * 2 ^ k)" by (simp add: x_def)
  have y: "of_int (py_round (x / (1 / 2 ^ k))) * (1 / 2 ^ k) = x"
    unfolding q py_round_of_int by (simp add: x_def)
  have big: "\<not> (2::rat) powi 1024 \<le> \<bar>x\<bar>"
  proof
    assume "(2::rat) powi 1024 \<le> \<bar>x\<bar>"
    moreover have "(2::rat) powi 53 \<le> 2 powi 1024" by (intro power_int_increasing) simp_all
    ultimately show False using x2 by simp
  qed
  have "round_double x = Fin x"
    unfolding round_double_eq [OF lo hi] Let_def ulp y using big by simp
  then show ?thesis by (simp add: x_def)
qed

lemma float_of_int_exact: "\<bar>n\<bar> < 2 ^ 53 \<Longrightarrow> float_of_int n = Inr (Fin (of_int n))"
  by (simp add: float_of_int_def round_double_int)

lemma float_of_int_cases:
  "float_of_int n = Inl (OverflowError msg_int_too_large) \<or> (\<exists>y. float_of_int n = Inr (Fin y))"
  by (simp add: float_of_int_def split: float64.splits)

text \<open>
  Values used below. \<open>5404319552844595 / 2^54\<close> is the float \<open>0.3\<close> and
  \<open>6004799503160661 / 2^52\<close> the float nearest to \<open>4/3\<close>.
\<close>

lemma round_double_values:
  "round_double 10 = Fin 10"
  "round_double (15 / 4) = Fin (15 / 4)"
  "round_double (27021597764222975 / 9007199254740992) = Fin 3"
  "round_double (18014398509481983 / 4503599627370496) = Fin 4"
  "round_double 5 = Fin 5"
  using round_double_int [of 10] round_double_int [of 5]
    round_double_eq [of 1 "15 / 4"]
    round_double_eq [of 1 "27021597764222975 / 9007199254740992"]
    round_double_eq [of 1 "18014398509481983 / 4503599627370496"]
  by (simp_all add: py_round_def Let_def floor_numeral_div)

lemma float_of_int_values:
  "float_of_int 2 = Inr (Fin 2)" "float_of_int 3 = Inr (Fin 3)"
  "float_of_int 10 = Inr (Fin 10)"
  "float_of_int (2 ^ 1024) = Inl (OverflowError msg_int_too_large)"
  using float_of_int_exact [of 2] float_of_int_exact [of 3] float_of_int_exact [of 10]
    round_double_eq [of 1024 "2 ^ 1024"]
  by (simp_all add: float_of_int_def py_round_def Let_def)

lemma py_round_values:
  "py_round 10 = 10" "py_round 3 = 3" "py_round 4 = 4" "py_round 5 = 5"
  "py_round (15 / 4) = 4"
  by (simp_all add: py_round_def Let_def floor_numeral_div)

lemma double_inputs:
  "round_double (15 / 8) = Fin (15 / 8)"
  "round_double (5404319552844595 / 18014398509481984)
     = Fin (5404319552844595 / 18014398509481984)"
  "round_double (6004799503160661 / 4503599627370496)
     = Fin (6004799503160661 / 4503599627370496)"
  using round_double_eq [of 0 "15 / 8"]
    round_double_eq [of "- 2" "5404319552844595 / 18014398509481984"]
    round_double_eq [of 0 "6004799503160661 / 4503599627370496"]
  by (simp_all add: py_round_def Let_def floor_numeral_div)

lemma big_values:
  "float_of_int 9007199254740993 = Inr (Fin 9007199254740992)"
  "round_double 18014398509481984 = Fin 18014398509481984"
  "py_round 18014398509481984 = 18014398509481984"
  using round_double_eq [of 53 "9007199254740993"] round_double_eq [of 54 "18014398509481984"]
  by (simp_all add: float_of_int_def py_round_def Let_def floor_numeral_div)

lemma big_ge: "\<not> (2::int) ^ 1024 < 2"
proof -
  have "(2::int) ^ 1 \<le> 2 ^ 1024" by (rule power_increasing) simp_all
  then show ?thesis by simp
qed

text \<open>
  C1 (as amended). With \<open>p\<close> the float product \<^verbatim>\<open>ratio * resolution\<close>, construction
  raises exactly in these cases: \<open>resolution < 2\<close> (\<^verbatim>\<open>ValueError\<close>); \<open>resolution\<close> too large
  for a float (\<^verbatim>\<open>OverflowError\<close>); \<open>p\<close> a NaN (\<^verbatim>\<open>ValueError\<close>); \<open>p\<close> plus infinity
  (\<^verbatim>\<open>OverflowError\<close>); \<open>p\<close> minus infinity, or \<open>p\<close> itself (before rounding) below 4, or
  \<open>round p\<close> odd (\<^verbatim>\<open>ValueError\<close>). An error comes without a generator, so nothing is
  built from invalid input. In every other case construction returns the generator
  with \<open>n_r = resolution\<close> and \<open>n_phi = round p\<close>, and then \<open>n_r \<ge> 2\<close> and \<open>n_phi\<close> is
  even and at least 4.
\<close>

theorem init_raises_iff:
  "init resolution ratio =
     (if resolution < 2 then Inl (ValueError msg_resolution)
      else
        case float_of_int resolution of
          Inl e \<Rightarrow> Inl (OverflowError msg_int_too_large)
        | Inr fr \<Rightarrow>
            (case float_mul ratio fr of
               NaN \<Rightarrow> Inl (ValueError msg_nan)
             | PosInf \<Rightarrow> Inl (OverflowError msg_infinity)
             | NegInf \<Rightarrow> Inl (ValueError msg_ratio)
             | Fin p \<Rightarrow>
                 if p < 4 \<or> odd (py_round p) then Inl (ValueError msg_ratio)
                 else Inr \<lparr>n_r = resolution, n_phi = py_round p\<rparr>))
   \<and> (\<forall>gen. init resolution ratio = Inr gen \<longrightarrow>
         n_r gen = resolution \<and> 2 \<le> n_r gen \<and> even (n_phi gen) \<and> 4 \<le> n_phi gen)"
proof -
  have r4: "4 \<le> py_round p" if "\<not> p < 4" for p
    using that py_round_ge [of 4 p] by simp
  have eq: "init resolution ratio =
     (if resolution < 2 then Inl (ValueError msg_resolution)
      else
        case float_of_int resolution of
          Inl e \<Rightarrow> Inl (OverflowError msg_int_too_large)
        | Inr fr \<Rightarrow>
            (case float_mul ratio fr of
               NaN \<Rightarrow> Inl (ValueError msg_nan)
             | PosInf \<Rightarrow> Inl (OverflowError msg_infinity)
             | NegInf \<Rightarrow> Inl (ValueError msg_ratio)
             | Fin p \<Rightarrow>
                 if p < 4 \<or> odd (py_round p) then Inl (ValueError msg_ratio)
                 else Inr \<lparr>n_r = resolution, n_phi = py_round p\<rparr>))"
    using float_of_int_cases [of resolution]
    by (auto simp: init_def Let_def even_iff_mod_2_eq_zero split: float64.splits sum.splits)
  show ?thesis
  proof (intro conjI allI impI)
    show "init resolution ratio =
     (if resolution < 2 then Inl (ValueError msg_resolution)
      else
        case float_of_int resolution of
          Inl e \<Rightarrow> Inl (OverflowError msg_int_too_large)
        | Inr fr \<Rightarrow>
            (case float_mul ratio fr of
               NaN \<Rightarrow> Inl (ValueError msg_nan)
             | PosInf \<Rightarrow> Inl (OverflowError msg_infinity)
             | NegInf \<Rightarrow> Inl (ValueError msg_ratio)
             | Fin p \<Rightarrow>
                 if p < 4 \<or> odd (py_round p) then Inl (ValueError msg_ratio)
                 else Inr \<lparr>n_r = resolution, n_phi = py_round p\<rparr>))"
      by (rule eq)
  next
    fix gen
    assume "init resolution ratio = Inr gen"
    then show "n_r gen = resolution" "2 \<le> n_r gen" "even (n_phi gen)" "4 \<le> n_phi gen"
      unfolding eq using r4
      by (auto split: if_splits sum.splits float64.splits)
  qed
qed

text \<open>
  The three scenarios of the specification; the float nearest to \<open>4/3\<close> with
  resolution 3, where the product rounds up to \<open>4.0\<close>; \<open>ratio = 1.875\<close> with resolution
  2, where the product \<open>3.75\<close> is below 4; a NaN, an infinity and a resolution too
  large for a float; and resolution \<open>2^53 + 1\<close>, which converts to the float \<open>2^53\<close>.
\<close>

theorem init_raises_iff_witness:
  "init 1 (Fin 2) = Inl (ValueError msg_resolution)
   \<and> init 10 (Fin 1) = Inr \<lparr>n_r = 10, n_phi = 10\<rparr>
   \<and> init 10 (Fin (5404319552844595 / 18014398509481984)) = Inl (ValueError msg_ratio)
   \<and> init 3 (Fin (6004799503160661 / 4503599627370496)) = Inr \<lparr>n_r = 3, n_phi = 4\<rparr>
   \<and> init 2 (Fin (15 / 8)) = Inl (ValueError msg_ratio)
   \<and> init 2 NaN = Inl (ValueError msg_nan)
   \<and> init 2 PosInf = Inl (OverflowError msg_infinity)
   \<and> init (2 ^ 1024) (Fin 1) = Inl (OverflowError msg_int_too_large)
   \<and> init (2 ^ 53 + 1) (Fin 2) = Inr \<lparr>n_r = 2 ^ 53 + 1, n_phi = 2 ^ 54\<rparr>"
proof -
  note v = float_of_int_values round_double_values py_round_values
  have "init 1 (Fin 2) = Inl (ValueError msg_resolution)"
    using init_raises_iff [of 1 "Fin 2", THEN conjunct1] by simp
  moreover have "init 10 (Fin 1) = Inr \<lparr>n_r = 10, n_phi = 10\<rparr>"
    using init_raises_iff [of 10 "Fin 1", THEN conjunct1] by (simp add: v)
  moreover have "init 10 (Fin (5404319552844595 / 18014398509481984))
      = Inl (ValueError msg_ratio)"
    using init_raises_iff [of 10 "Fin (5404319552844595 / 18014398509481984)", THEN conjunct1]
    by (simp add: v)
  moreover have "init 3 (Fin (6004799503160661 / 4503599627370496))
      = Inr \<lparr>n_r = 3, n_phi = 4\<rparr>"
    using init_raises_iff [of 3 "Fin (6004799503160661 / 4503599627370496)", THEN conjunct1]
    by (simp add: v)
  moreover have "init 2 (Fin (15 / 8)) = Inl (ValueError msg_ratio)"
    using init_raises_iff [of 2 "Fin (15 / 8)", THEN conjunct1] by (simp add: v)
  moreover have "init 2 NaN = Inl (ValueError msg_nan)"
    using init_raises_iff [of 2 NaN, THEN conjunct1] by (simp add: v)
  moreover have "init 2 PosInf = Inl (OverflowError msg_infinity)"
    using init_raises_iff [of 2 PosInf, THEN conjunct1] by (simp add: v)
  moreover have "init (2 ^ 1024) (Fin 1) = Inl (OverflowError msg_int_too_large)"
    using init_raises_iff [of "2 ^ 1024" "Fin 1", THEN conjunct1]
    by (simp only: big_ge float_of_int_values if_False sum.case)
  moreover have "init (2 ^ 53 + 1) (Fin 2) = Inr \<lparr>n_r = 2 ^ 53 + 1, n_phi = 2 ^ 54\<rparr>"
    using init_raises_iff [of "2 ^ 53 + 1" "Fin 2", THEN conjunct1]
    by (simp add: big_values)
  ultimately show ?thesis by (intro conjI)
qed

text \<open>
  C1 as stated fails: for \<open>resolution = 2\<close> and \<open>ratio = 1.875\<close> the product is the
  float \<open>3.75\<close>, which rounds to 4, an even integer that is at least 4, and
  \<open>resolution\<close> is not below 2, yet construction raises.
\<close>

theorem init_claim_counterexample:
  "round_double (15 / 8) = Fin (15 / 8)
   \<and> float_of_int 2 = Inr (Fin 2)
   \<and> float_mul (Fin (15 / 8)) (Fin 2) = Fin (15 / 4)
   \<and> py_round (15 / 4) = 4
   \<and> init 2 (Fin (15 / 8)) = Inl (ValueError msg_ratio)"
  by (simp add: init_def Let_def float_of_int_values round_double_values py_round_values
      double_inputs)

text \<open>
  C9 (as amended). When construction raises, the error is fixed by the check that
  failed: the resolution message when \<open>resolution < 2\<close>; the interpreter's
  \<^verbatim>\<open>OverflowError\<close> when \<open>resolution\<close> does not convert to a float; the interpreter's
  \<^verbatim>\<open>ValueError\<close> for a NaN product and \<^verbatim>\<open>OverflowError\<close> for plus infinity; and the
  ratio message in every other failing case, whatever the value of the product. The
  message is always one of these five constant strings.
\<close>

theorem error_text_fixed:
  assumes "init resolution ratio = Inl e"
  shows "e =
     (if resolution < 2 then ValueError msg_resolution
      else
        case float_of_int resolution of
          Inl _ \<Rightarrow> OverflowError msg_int_too_large
        | Inr fr \<Rightarrow>
            (case float_mul ratio fr of
               NaN \<Rightarrow> ValueError msg_nan
             | PosInf \<Rightarrow> OverflowError msg_infinity
             | NegInf \<Rightarrow> ValueError msg_ratio
             | Fin p \<Rightarrow> ValueError msg_ratio))
     \<and> error_text e \<in> {msg_resolution, msg_int_too_large, msg_nan, msg_infinity, msg_ratio}"
proof -
  have "e =
     (if resolution < 2 then ValueError msg_resolution
      else
        case float_of_int resolution of
          Inl _ \<Rightarrow> OverflowError msg_int_too_large
        | Inr fr \<Rightarrow>
            (case float_mul ratio fr of
               NaN \<Rightarrow> ValueError msg_nan
             | PosInf \<Rightarrow> OverflowError msg_infinity
             | NegInf \<Rightarrow> ValueError msg_ratio
             | Fin p \<Rightarrow> ValueError msg_ratio))"
    using assms float_of_int_cases [of resolution]
    by (auto simp: init_def Let_def split: if_splits sum.splits float64.splits)
  then show ?thesis
    by (auto split: if_splits sum.splits float64.splits)
qed

text \<open>
  The floats \<open>0.5\<close> and \<open>0.3\<close> with resolution 10 give the products 5 and 3 and the
  same error.
\<close>

theorem error_text_fixed_witness:
  "init 10 (Fin (1 / 2)) = Inl (ValueError msg_ratio)
   \<and> init 10 (Fin (5404319552844595 / 18014398509481984)) = Inl (ValueError msg_ratio)
   \<and> py_round 5 = 5 \<and> py_round 3 = 3
   \<and> error_text (ValueError msg_ratio) = msg_ratio"
proof -
  have a: "init 10 (Fin (1 / 2)) = Inl (ValueError msg_ratio)"
    by (simp add: init_def Let_def float_of_int_values round_double_values py_round_values)
  have b: "init 10 (Fin (5404319552844595 / 18014398509481984)) = Inl (ValueError msg_ratio)"
    by (simp add: init_def Let_def float_of_int_values round_double_values py_round_values)
  show ?thesis
    using error_text_fixed [OF a] a b by (simp add: py_round_values)
qed

text \<open>
  C9 as stated fails: for \<open>resolution = 10\<close> and \<open>ratio = 0.3\<close> the computed \<open>n_phi\<close>
  is 3, and the digit 3 occurs nowhere in the message of the error.
\<close>

theorem error_text_counterexample:
  "round_double (5404319552844595 / 18014398509481984)
     = Fin (5404319552844595 / 18014398509481984)
   \<and> init 10 (Fin (5404319552844595 / 18014398509481984)) = Inl (ValueError msg_ratio)
   \<and> float_mul (Fin (5404319552844595 / 18014398509481984)) (Fin 10) = Fin 3
   \<and> py_round 3 = 3
   \<and> \<not> contains ''3'' (error_text (ValueError msg_ratio))"
  by (simp add: init_def Let_def float_of_int_values round_double_values py_round_values
      double_inputs msg_ratio_def)

section \<open>Counts\<close>

text \<open>
  C3. For \<open>n_r \<ge> 2\<close> and even \<open>n_phi \<ge> 4\<close>, build produces
  \<open>1 + (n_r - 1) * n_phi\<close> vertices and
  \<open>2 * (n_r - 2) * n_phi + 2 * n_phi + n_phi = 2 * (n_r - 1) * n_phi + n_phi\<close> faces.
\<close>

theorem build_counts:
  assumes "2 \<le> n_r gen" and "even (n_phi gen)" and "4 \<le> n_phi gen"
  shows "int (length (fst (build gen))) = 1 + (n_r gen - 1) * n_phi gen
    \<and> int (length (snd (build gen)))
        = 2 * (n_r gen - 2) * n_phi gen + 2 * n_phi gen + n_phi gen
    \<and> 2 * (n_r gen - 2) * n_phi gen + 2 * n_phi gen + n_phi gen
        = 2 * (n_r gen - 1) * n_phi gen + n_phi gen"
  using assms by (simp add: build_def length_verts length_build_faces algebra_simps)

text \<open>
  For \<open>n_r = 4\<close> and \<open>n_phi = 6\<close>: 19 vertices and 42 faces.
\<close>

theorem build_counts_witness:
  "length (fst (build \<lparr>n_r = 4, n_phi = 6\<rparr>)) = 19
   \<and> length (snd (build \<lparr>n_r = 4, n_phi = 6\<rparr>)) = 42"
  using build_counts [of "\<lparr>n_r = 4, n_phi = 6\<rparr>"] by simp

section \<open>The join on the outer ring\<close>

text \<open>
  C4. The faces after the \<open>2 * (n_r - 2) * n_phi\<close> strip faces are the join: for each
  \<open>j\<close> in \<open>[0, n_phi)\<close> the two triangles
  \<open>(outer[j+1], outer[j+half], outer[j])\<close> and
  \<open>(outer[j+1], outer[j+half+1], outer[j+half])\<close>, indices modulo \<open>n_phi\<close>, where
  \<open>outer[j+half]\<close> is the vertex opposite to \<open>j\<close>. All of them lie on ring \<open>n_r - 2\<close>,
  which starts at \<open>outer_ring_start\<close> and ends with the last vertex of the list: there
  is no ring after it.
\<close>

theorem mobius_join:
  assumes "2 \<le> n_r gen" and "0 \<le> j" and "j < n_phi gen"
  shows "build_faces gen ! nat (2 * (n_r gen - 2) * n_phi gen + 2 * j)
           = (ring_vertex gen (n_r gen - 2) ((j + 1) mod n_phi gen),
              ring_vertex gen (n_r gen - 2) (opposite (n_phi gen) j),
              ring_vertex gen (n_r gen - 2) j)
       \<and> build_faces gen ! nat (2 * (n_r gen - 2) * n_phi gen + 2 * j + 1)
           = (ring_vertex gen (n_r gen - 2) ((j + 1) mod n_phi gen),
              ring_vertex gen (n_r gen - 2) ((j + n_phi gen div 2 + 1) mod n_phi gen),
              ring_vertex gen (n_r gen - 2) (opposite (n_phi gen) j))
       \<and> ring_vertex gen (n_r gen - 2) 0 = outer_ring_start gen
       \<and> ring_vertex gen (n_r gen - 2) (n_phi gen - 1) = int (length (verts gen))"
proof -
  have j: "nat j < nat (n_phi gen)" using assms by simp
  have i0: "nat (2 * (n_r gen - 2) * n_phi gen + 2 * j)
      = nat (n_r gen - 2) * (nat (n_phi gen) * 2) + (nat j * 2 + 0)"
    using assms by (intro nat_eqI) simp
  have i1: "nat (2 * (n_r gen - 2) * n_phi gen + 2 * j + 1)
      = nat (n_r gen - 2) * (nat (n_phi gen) * 2) + (nat j * 2 + 1)"
    using assms by (intro nat_eqI) simp
  have "int (length (verts gen)) = 1 + (n_r gen - 1) * n_phi gen"
    using assms by (simp add: length_verts)
  then have last: "ring_vertex gen (n_r gen - 2) (n_phi gen - 1) = int (length (verts gen))"
    by (simp add: ring_vertex_def algebra_simps)
  have first: "ring_vertex gen (n_r gen - 2) 0 = outer_ring_start gen"
    by (simp add: ring_vertex_def outer_ring_start_def first_ring_start_def)
  show ?thesis
    unfolding i0 i1 using assms mobius_nth [OF j, of 0] mobius_nth [OF j, of 1] last first
    by (simp add: mobius_cell_def)
qed

theorem mobius_join_witness:
  "build_faces \<lparr>n_r = 4, n_phi = 6\<rparr> ! 30 = (18, 14, 17)
   \<and> build_faces \<lparr>n_r = 4, n_phi = 6\<rparr> ! 31 = (18, 15, 14)"
  using mobius_join [of "\<lparr>n_r = 4, n_phi = 6\<rparr>" 3]
  by (simp add: ring_vertex_def opposite_def)

text \<open>
  C5. For even \<open>n \<ge> 4\<close> the opposite-index function maps \<open>[0, n)\<close> to itself and
  is an involution there.
\<close>

theorem opposite_involution:
  assumes "even n" and "4 \<le> n" and "0 \<le> j" and "j < n"
  shows "opposite n (opposite n j) = j \<and> 0 \<le> opposite n j \<and> opposite n j < n"
proof -
  from assms(1) obtain h where h: "n = 2 * h" by (elim evenE)
  have "opposite n (opposite n j) = (j + h + h) mod n"
    using h by (simp add: opposite_def mod_add_left_eq)
  also have "\<dots> = (j + n) mod n" using h by (simp add: algebra_simps)
  also have "\<dots> = j" using assms by simp
  finally show ?thesis using assms by (simp add: opposite_def)
qed

theorem opposite_involution_witness:
  "opposite 6 (opposite 6 4) = 4 \<and> opposite 6 4 = 1"
  using opposite_involution [of 6 4] by (simp add: opposite_def)

section \<open>Strips and fan\<close>

text \<open>
  C8. For \<open>i\<close> from ring 0 to ring \<open>n_r - 3\<close> and each \<open>j\<close>, faces
  \<open>2 * (i * n_phi + j)\<close> and the next one are
  \<open>(inner[j], outer[j], outer[j+1])\<close> and \<open>(inner[j], outer[j+1], inner[j+1])\<close> with
  \<open>inner\<close> ring \<open>i\<close> and \<open>outer\<close> ring \<open>i + 1\<close>; the last \<open>n_phi\<close> faces are the fan
  \<open>(centre, ring0[j+1], ring0[j])\<close>. Indices wrap modulo \<open>n_phi\<close>.
\<close>

theorem strips_and_fan:
  assumes "2 \<le> n_r gen" and "0 \<le> j" and "j < n_phi gen"
  shows "(\<forall>i. 0 \<le> i \<and> i < n_r gen - 2 \<longrightarrow>
            build_faces gen ! nat (2 * (i * n_phi gen + j))
              = (ring_vertex gen i j, ring_vertex gen (i + 1) j,
                 ring_vertex gen (i + 1) ((j + 1) mod n_phi gen))
          \<and> build_faces gen ! nat (2 * (i * n_phi gen + j) + 1)
              = (ring_vertex gen i j, ring_vertex gen (i + 1) ((j + 1) mod n_phi gen),
                 ring_vertex gen i ((j + 1) mod n_phi gen)))
       \<and> build_faces gen ! nat (2 * (n_r gen - 1) * n_phi gen + j)
           = (1, ring_vertex gen 0 ((j + 1) mod n_phi gen), ring_vertex gen 0 j)"
proof (intro conjI allI impI)
  have j: "nat j < nat (n_phi gen)" using assms by simp
  have "nat (2 * (n_r gen - 1) * n_phi gen + j)
      = nat (n_r gen - 2) * (nat (n_phi gen) * 2) + nat (n_phi gen) * 2 + nat j"
    using assms by (intro nat_eqI) (simp add: algebra_simps)
  then show "build_faces gen ! nat (2 * (n_r gen - 1) * n_phi gen + j)
           = (1, ring_vertex gen 0 ((j + 1) mod n_phi gen), ring_vertex gen 0 j)"
    using fan_nth [OF j] assms by (simp add: fan_cell_def)
  fix i
  assume i: "0 \<le> i \<and> i < n_r gen - 2"
  then have i': "nat i < nat (n_r gen - 2)" by simp
  have i0: "nat (2 * (i * n_phi gen + j)) = nat i * (nat (n_phi gen) * 2) + (nat j * 2 + 0)"
    using assms i by (intro nat_eqI) (simp add: algebra_simps)
  have i1: "nat (2 * (i * n_phi gen + j) + 1) = nat i * (nat (n_phi gen) * 2) + (nat j * 2 + 1)"
    using assms i by (intro nat_eqI) (simp add: algebra_simps)
  show "build_faces gen ! nat (2 * (i * n_phi gen + j))
      = (ring_vertex gen i j, ring_vertex gen (i + 1) j,
         ring_vertex gen (i + 1) ((j + 1) mod n_phi gen))"
    unfolding i0 using radial_nth [OF i' j, of 0] i assms by (simp add: strip_cell_def)
  show "build_faces gen ! nat (2 * (i * n_phi gen + j) + 1)
      = (ring_vertex gen i j, ring_vertex gen (i + 1) ((j + 1) mod n_phi gen),
         ring_vertex gen i ((j + 1) mod n_phi gen))"
    unfolding i1 using radial_nth [OF i' j, of 1] i assms by (simp add: strip_cell_def)
qed

theorem strips_and_fan_witness:
  "build_faces \<lparr>n_r = 4, n_phi = 6\<rparr> ! 22 = (13, 19, 14)
   \<and> build_faces \<lparr>n_r = 4, n_phi = 6\<rparr> ! 23 = (13, 14, 8)
   \<and> build_faces \<lparr>n_r = 4, n_phi = 6\<rparr> ! 41 = (1, 2, 7)"
proof -
  have "(0::int) \<le> 1 \<and> (1::int) < 4 - 2" by simp
  then show ?thesis
    using strips_and_fan [of "\<lparr>n_r = 4, n_phi = 6\<rparr>" 5, THEN conjunct1, rule_format, of 1]
      strips_and_fan [of "\<lparr>n_r = 4, n_phi = 6\<rparr>" 5, THEN conjunct2]
    by (simp add: ring_vertex_def)
qed

section \<open>Well-formed faces and coverage\<close>

text \<open>
  C6. For a valid configuration every face has its three indices in
  \<open>[1, 1 + (n_r - 1) * n_phi]\<close>, the length of the vertex list, and pairwise distinct.
\<close>

theorem faces_valid:
  assumes "2 \<le> n_r gen" and "even (n_phi gen)" and "4 \<le> n_phi gen"
  shows "\<forall>f \<in> set (snd (build gen)). valid_face (int (length (fst (build gen)))) f"
proof
  fix f
  assume "f \<in> set (snd (build gen))"
  then have f: "f \<in> set (build_faces gen)" by (simp add: build_def)
  have N: "int (length (fst (build gen))) = 1 + (n_r gen - 1) * n_phi gen"
    using assms by (simp add: build_def length_verts)
  from f show "valid_face (int (length (fst (build gen)))) f"
    unfolding N build_faces_cases
    using assms strip_cell_valid [of _ gen _ f] mobius_cell_valid [of gen _ f]
      fan_cell_valid [of gen _ f]
    by auto
qed

theorem faces_valid_witness:
  "(1, 3, 2) \<in> set (snd (build \<lparr>n_r = 2, n_phi = 4\<rparr>))
   \<and> valid_face (int (length (fst (build \<lparr>n_r = 2, n_phi = 4\<rparr>)))) (1, 3, 2)
   \<and> length (fst (build \<lparr>n_r = 2, n_phi = 4\<rparr>)) = 5"
proof -
  have "(1, 3, 2) \<in> set (snd (build \<lparr>n_r = 2, n_phi = 4\<rparr>))"
    by (simp add: build_def build_faces_cases fan_cell_def ring_vertex_def)
  moreover have "length (fst (build \<lparr>n_r = 2, n_phi = 4\<rparr>)) = 5"
    by (simp add: build_def length_verts)
  ultimately show ?thesis
    using faces_valid [of "\<lparr>n_r = 2, n_phi = 4\<rparr>"] by simp
qed

text \<open>
  C10. For a valid configuration every vertex index from 1 to the number of vertices
  is a corner of at least one face.
\<close>

theorem no_orphan_vertices:
  assumes "2 \<le> n_r gen" and "even (n_phi gen)" and "4 \<le> n_phi gen"
    and "1 \<le> v" and "v \<le> int (length (fst (build gen)))"
  shows "\<exists>f \<in> set (snd (build gen)). uses_vertex v f"
proof -
  define n where "n = n_phi gen"
  have n: "0 < n" using assms(3) by (simp add: n_def)
  have N: "int (length (fst (build gen))) = 1 + (n_r gen - 1) * n"
    using assms by (simp add: build_def length_verts n_def)
  have "\<exists>f \<in> set (build_faces gen). uses_vertex v f"
  proof (cases "v = 1")
    case True
    have "(1, ring_vertex gen 0 ((0 + 1) mod n), ring_vertex gen 0 0) \<in> set (build_faces gen)"
      unfolding build_faces_cases using n by (auto simp: fan_cell_def n_def)
    then show ?thesis using True by (intro bexI) simp_all
  next
    case False
    define k where "k = v - 2"
    define i where "i = k div n"
    define j where "j = k mod n"
    have k0: "0 \<le> k" using assms(4) False by (simp add: k_def)
    have k1: "k < (n_r gen - 1) * n" using assms(5) N by (simp add: k_def)
    have j: "0 \<le> j" "j < n" using n by (simp_all add: j_def)
    have i0: "0 \<le> i" using k0 n by (simp add: i_def pos_imp_zdiv_nonneg_iff)
    have kij: "k = i * n + j" by (simp add: i_def j_def)
    have i1: "i < n_r gen - 1"
    proof (rule ccontr)
      assume "\<not> i < n_r gen - 1"
      then have "(n_r gen - 1) * n \<le> i * n"
        using n by (intro mult_right_mono) simp_all
      with kij j k1 show False by simp
    qed
    have v: "v = ring_vertex gen i j"
      using kij by (simp add: ring_vertex_def k_def n_def)
    show ?thesis
    proof (cases "i = 0")
      case True
      have "(1, ring_vertex gen 0 ((j + 1) mod n), ring_vertex gen 0 j) \<in> set (build_faces gen)"
        unfolding build_faces_cases using j by (auto simp: fan_cell_def n_def)
      then show ?thesis using v True by (intro bexI) simp_all
    next
      case False
      have "(ring_vertex gen (i - 1) j, ring_vertex gen (i - 1 + 1) j,
             ring_vertex gen (i - 1 + 1) ((j + 1) mod n)) \<in> set (strip_cell gen (i - 1) j)"
        by (simp add: strip_cell_def n_def)
      moreover have "0 \<le> i - 1 \<and> i - 1 < n_r gen - 2" using False i0 i1 by simp
      ultimately have "(ring_vertex gen (i - 1) j, ring_vertex gen (i - 1 + 1) j,
             ring_vertex gen (i - 1 + 1) ((j + 1) mod n)) \<in> set (build_faces gen)"
        unfolding build_faces_cases using j n_def by blast
      then show ?thesis using v by (intro bexI) simp_all
    qed
  qed
  then show ?thesis by (simp add: build_def)
qed

text \<open>
  With \<open>n_r = 2\<close> no strip face exists and the one ring is both innermost and
  outermost.
\<close>

theorem no_orphan_vertices_witness:
  "\<exists>f \<in> set (snd (build \<lparr>n_r = 2, n_phi = 4\<rparr>)). uses_vertex 5 f"
proof -
  have "(5::int) \<le> int (length (fst (build \<lparr>n_r = 2, n_phi = 4\<rparr>)))"
    by (simp add: build_def length_verts)
  then show ?thesis
    using no_orphan_vertices [of "\<lparr>n_r = 2, n_phi = 4\<rparr>" 5] by simp
qed

section \<open>The vertex list\<close>

lemma r_vals_eq:
  "r_vals gen = map (\<lambda>i. of_int i / of_int (n_r gen - 1)) [1..n_r gen - 1]"
proof (cases "0 \<le> n_r gen - 1")
  case True
  then have "[0..n_r gen - 1] = 0 # [1..n_r gen - 1]"
    by (subst upto_rec1) simp_all
  then show ?thesis
    by (simp add: r_vals_def linspace_def range_py_def)
next
  case False
  then show ?thesis
    by (simp add: r_vals_def linspace_def range_py_def)
qed

lemma phi_vals_eq:
  "phi_vals gen = map (\<lambda>k. of_int k * (2 * pi / of_int (n_phi gen))) (range_py (n_phi gen))"
  by (simp add: phi_vals_def linspace_def)

lemma w_grid_samples:
  assumes "w \<in> set (w_grid gen)"
  shows "\<exists>m k. 1 \<le> m \<and> m \<le> n_r gen - 1 \<and> 0 \<le> k \<and> k < n_phi gen
    \<and> w = of_real (of_int m / of_int (n_r gen - 1))
          * exp (\<i> * of_real (of_int k * (2 * pi / of_int (n_phi gen))))"
  using assms unfolding w_grid_def r_vals_eq phi_vals_eq
  by (auto simp: set_range_py)

lemma cmod_sample: "cmod (of_real r * exp (\<i> * of_real phi)) = \<bar>r\<bar>"
  by (simp add: norm_mult norm_exp_eq_Re)

lemma w_grid_nonzero: "0 \<notin> set (w_grid gen)"
proof
  assume "0 \<in> set (w_grid gen)"
  then obtain m k where m: "1 \<le> m" "m \<le> n_r gen - 1"
    and w: "0 = of_real (of_int m / of_int (n_r gen - 1))
          * exp (\<i> * of_real (of_int k * (2 * pi / of_int (n_phi gen))))"
    using w_grid_samples by blast
  from w have "(of_int m / of_int (n_r gen - 1) :: real) = 0" by simp
  with m show False by simp
qed

text \<open>
  The vertex at position \<open>ring_vertex gen i j\<close> of the list is the image of the grid
  sample of radius \<open>(i + 1) / (n_r - 1)\<close> and angle \<open>2 * pi * j / n_phi\<close>.
\<close>

lemma verts_ring_vertex:
  assumes "0 \<le> i" and "i < n_r gen - 1" and "0 \<le> j" and "j < n_phi gen"
  shows "verts gen ! nat (ring_vertex gen i j - 1)
     = xyz (of_real (of_int (i + 1) / of_int (n_r gen - 1))
            * exp (\<i> * of_real (of_int j * (2 * pi / of_int (n_phi gen)))))"
proof -
  let ?row = "\<lambda>r. map (\<lambda>phi. complex_of_real r * exp (\<i> * of_real phi)) (phi_vals gen)"
  have len: "length (phi_vals gen) = nat (n_phi gen)"
    by (simp add: phi_vals_def length_linspace)
  have idx: "nat (ring_vertex gen i j - 1) = Suc (nat i * nat (n_phi gen) + nat j)"
    using assms by (intro nat_eqI) (simp add: ring_vertex_def)
  have lt: "nat i * nat (n_phi gen) + nat j < length (w_grid gen)"
  proof -
    have "nat i * nat (n_phi gen) + nat j < Suc (nat i) * nat (n_phi gen)"
      using assms by simp
    also have "\<dots> \<le> nat (n_r gen - 1) * nat (n_phi gen)"
      using assms by (intro mult_le_mono1) simp
    finally show ?thesis by (simp add: length_w_grid)
  qed
  have i: "nat i < length (r_vals gen)"
    using assms by (simp add: r_vals_eq)
  have "w_grid gen ! (nat i * nat (n_phi gen) + nat j) = ?row (r_vals gen ! nat i) ! nat j"
    unfolding w_grid_def using i assms
    by (intro nth_concat_blocks) (simp_all add: len)
  also have "r_vals gen ! nat i = of_int (i + 1) / of_int (n_r gen - 1)"
    using assms by (simp add: r_vals_eq)
  also have "?row (of_int (i + 1) / of_int (n_r gen - 1)) ! nat j
      = of_real (of_int (i + 1) / of_int (n_r gen - 1))
        * exp (\<i> * of_real (of_int j * (2 * pi / of_int (n_phi gen))))"
    using assms nth_range_py [of j "n_phi gen"]
    by (simp add: phi_vals_eq length_range_py)
  finally show ?thesis
    unfolding idx verts_def using lt by simp
qed

section \<open>The evaluator at the centre\<close>

lemma denom_0: "denom 0 = - 1"
  by (simp add: denom_def)

lemma g_at_0: "g1 0 = 0" "g2 0 = 0" "g3 0 = - 1 / 2" "gsum 0 = 1 / 4"
  by (simp_all add: g1_def g2_def g3_def gsum_def denom_def power2_eq_square)

lemma xyz_0: "xyz 0 = Some (0, 0, - 2)"
  by (simp add: xyz_def g_at_0 denom_0)

text \<open>
  C7. At \<open>w = 0\<close> the denominator is \<open>-1\<close>, \<open>g1 = g2 = 0\<close>, \<open>g3 = -1/2\<close>, the norm
  is \<open>1/4\<close> and the evaluator returns \<open>(0, 0, -2)\<close>. That point is the first entry
  of the vertex list, in front of the images of the grid, and no grid sample is
  \<open>0\<close>. Every intermediate value at \<open>w = 0\<close> is a small integer or a half, so the
  computation is the same in binary floating point.
\<close>

theorem centre_vertex:
  "denom 0 = - 1 \<and> g1 0 = 0 \<and> g2 0 = 0 \<and> g3 0 = - 1 / 2 \<and> gsum 0 = 1 / 4
   \<and> xyz 0 = Some (0, 0, - 2)
   \<and> fst (build gen) = Some (0, 0, - 2) # map xyz (w_grid gen)
   \<and> 0 \<notin> set (w_grid gen)"
  using w_grid_nonzero [of gen]
  by (simp add: denom_0 g_at_0 xyz_0 build_def verts_def)

text \<open>
  For \<open>n_r = 2\<close> and \<open>n_phi = 4\<close>: the first of the five vertices is \<open>(0, 0, -2)\<close>.
\<close>

theorem centre_vertex_witness:
  "xyz 0 = Some (0, 0, - 2)
   \<and> fst (build \<lparr>n_r = 2, n_phi = 4\<rparr>) ! 0 = Some (0, 0, - 2)
   \<and> length (fst (build \<lparr>n_r = 2, n_phi = 4\<rparr>)) = 5"
  using centre_vertex [of "\<lparr>n_r = 2, n_phi = 4\<rparr>"]
  by (simp add: length_w_grid)

section \<open>The formula over exact complex numbers\<close>

text \<open>
  The facts of this section are about the formula of the evaluator computed without
  rounding: where its denominator vanishes, and that the norm \<open>g\<close> vanishes nowhere.
  They do not describe the rounded binary64 arithmetic of NumPy.

  The denominator is a quadratic in \<open>w\<^sup>3\<close> with the two real roots
  \<open>(3 - sqrt 5) / 2\<close> and \<open>- (3 + sqrt 5) / 2\<close>; only the first has a cube root in the
  closed unit disc.
\<close>

lemma sqrt5_sq: "sqrt 5 * sqrt 5 = 5"
  by simp

lemma sqrt5_bounds: "2 < sqrt 5" "sqrt 5 < 3"
  by (simp_all add: real_less_rsqrt real_less_lsqrt)

lemma pole_bounds: "0 < pole" "pole < 1"
  using sqrt5_bounds by (simp_all add: pole_def)

lemma denom_factor:
  "denom w = (w ^ 3 - of_real pole) * (w ^ 3 + of_real ((3 + sqrt 5) / 2))"
proof -
  have "pole * ((3 + sqrt 5) / 2) = 1"
    using sqrt5_sq by (simp add: pole_def algebra_simps)
  then have "of_real (pole * ((3 + sqrt 5) / 2)) = (1::complex)" by simp
  then have prod: "of_real pole * of_real ((3 + sqrt 5) / 2) = (1::complex)"
    by (simp only: of_real_mult)
  have "(3 + sqrt 5) / 2 - pole = sqrt 5" by (simp add: pole_def field_simps)
  then have "(of_real ((3 + sqrt 5) / 2 - pole) :: complex) = of_real (sqrt 5)" by simp
  then have diff: "of_real ((3 + sqrt 5) / 2) - of_real pole = (of_real (sqrt 5) :: complex)"
    by (simp only: of_real_diff)
  have "(w ^ 3 - of_real pole) * (w ^ 3 + of_real ((3 + sqrt 5) / 2))
      = w ^ 3 * w ^ 3 + (of_real ((3 + sqrt 5) / 2) - of_real pole) * w ^ 3
        - of_real pole * of_real ((3 + sqrt 5) / 2)"
    by (simp only: algebra_simps)
  also have "\<dots> = w ^ 6 + of_real (sqrt 5) * w ^ 3 - 1"
    unfolding prod diff by (simp add: power_add [symmetric])
  finally show ?thesis by (simp add: denom_def)
qed

lemma denom_zero_iff:
  assumes "cmod w \<le> 1"
  shows "denom w = 0 \<longleftrightarrow> w ^ 3 = of_real pole"
proof -
  have "w ^ 3 + of_real ((3 + sqrt 5) / 2) \<noteq> 0"
  proof
    assume "w ^ 3 + of_real ((3 + sqrt 5) / 2) = 0"
    then have "w ^ 3 = - of_real ((3 + sqrt 5) / 2)"
      by (simp add: add_eq_0_iff2)
    then have "cmod (w ^ 3) = cmod (- complex_of_real ((3 + sqrt 5) / 2))" by simp
    then have "cmod w ^ 3 = \<bar>(3 + sqrt 5) / 2\<bar>"
      by (simp only: norm_power norm_minus_cancel norm_of_real)
    moreover have "cmod w ^ 3 \<le> 1"
      using assms by (intro power_le_one) simp_all
    ultimately show False using sqrt5_bounds by simp
  qed
  then show ?thesis by (simp add: denom_factor)
qed

text \<open>
  The norm \<open>g\<close> vanishes nowhere: if \<open>g1 = g2 = 0\<close> away from the centre then
  \<open>w\<close> lies on the unit circle, and there \<open>g3\<close> is negative.
\<close>

lemma gsum_zero:
  assumes "gsum w = 0"
  shows "g1 w = 0" "g2 w = 0" "g3 w = 0"
proof -
  have a: "0 \<le> (g1 w)\<^sup>2" "0 \<le> (g2 w)\<^sup>2" "0 \<le> (g3 w)\<^sup>2" by simp_all
  from assms have "(g1 w)\<^sup>2 + (g2 w)\<^sup>2 + (g3 w)\<^sup>2 = 0" by (simp add: gsum_def)
  with a have "(g1 w)\<^sup>2 = 0" "(g2 w)\<^sup>2 = 0" "(g3 w)\<^sup>2 = 0" by linarith+
  then show "g1 w = 0" "g2 w = 0" "g3 w = 0" by simp_all
qed

lemma cnj_of_Im_0: "Im z = 0 \<Longrightarrow> cnj z = z"
  by (simp add: complex_eq_iff)

lemma cnj_of_Re_0: "Re z = 0 \<Longrightarrow> cnj z = - z"
  by (simp add: complex_eq_iff)

lemma on_unit_circle:
  assumes "denom w \<noteq> 0" and "w \<noteq> 0" and "g1 w = 0" and "g2 w = 0"
  shows "cmod w = 1"
proof -
  define p where "p = w / denom w"
  define A where "A = p * (1 - w ^ 4)"
  define B where "B = p * (1 + w ^ 4)"
  have p: "p \<noteq> 0" using assms(1,2) by (simp add: p_def)
  have "Im A = 0" using assms(3) by (simp add: g1_def A_def p_def)
  then have A: "cnj A = A" by (rule cnj_of_Im_0)
  have "Re B = 0" using assms(4) by (simp add: g2_def B_def p_def)
  then have B: "cnj B = - B" by (rule cnj_of_Re_0)
  have "2 * p = A + B" by (simp add: A_def B_def algebra_simps)
  then have "cnj (2 * p) = cnj A + cnj B" by simp
  also have "\<dots> = A - B" by (simp add: A B)
  also have "\<dots> = - (2 * (p * w ^ 4))" by (simp add: A_def B_def algebra_simps)
  finally have "2 * cnj p = 2 * (- (p * w ^ 4))" by simp
  then have "cnj p = - (p * w ^ 4)" by (simp only: mult_cancel_left) simp
  then have "cmod (cnj p) = cmod (- (p * w ^ 4))" by simp
  then have "cmod p = cmod p * cmod w ^ 4"
    by (simp only: complex_mod_cnj norm_minus_cancel norm_mult norm_power)
  with p have "cmod w ^ 4 = 1 ^ 4" by simp
  then show ?thesis
    by (rule power_eq_imp_eq_base) simp_all
qed

lemma g3_on_unit_circle:
  assumes "cmod w = 1"
  shows "g3 w \<noteq> 0"
proof
  assume g3: "g3 w = 0"
  define u where "u = w ^ 3"
  define x where "x = Re u"
  define y where "y = Im u"
  have nu: "cmod u = 1" using assms by (simp add: u_def norm_power)
  then have u0: "u \<noteq> 0" by auto
  have "complex_of_real ((cmod u)\<^sup>2) = u * cnj u" by (rule complex_norm_square)
  then have ucnj: "u * cnj u = 1" using nu by simp
  have uu: "u * u = w ^ 6" by (simp add: u_def power_add [symmetric])
  have circle: "x\<^sup>2 + y\<^sup>2 = 1"
    using nu by (simp add: cmod_def x_def y_def)
  have num: "1 + w ^ 6 = u * of_real (2 * x)"
  proof -
    have "u * of_real (2 * x) = u * (u + cnj u)"
      by (simp only: complex_add_cnj x_def)
    also have "\<dots> = u * u + u * cnj u" by (simp add: algebra_simps)
    also have "\<dots> = 1 + w ^ 6" by (simp add: ucnj uu)
    finally show ?thesis by simp
  qed
  have den: "denom w = u * Complex (sqrt 5) (2 * y)"
  proof -
    have "Complex (sqrt 5) (2 * y) = of_real (sqrt 5) + (u - cnj u)"
      by (simp add: complex_eq_iff y_def)
    then have "u * Complex (sqrt 5) (2 * y) = u * (of_real (sqrt 5) + (u - cnj u))"
      by (rule arg_cong)
    also have "\<dots> = u * u + of_real (sqrt 5) * u - u * cnj u"
      by (simp only: algebra_simps)
    also have "\<dots> = denom w"
      unfolding ucnj uu by (simp add: denom_def u_def)
    finally show ?thesis by simp
  qed
  have "(1 + w ^ 6) / denom w = of_real (2 * x) / Complex (sqrt 5) (2 * y)"
    unfolding num den using u0 by simp
  then have "Im ((1 + w ^ 6) / denom w) = - (4 * x * y) / (5 + 4 * y\<^sup>2)"
    by (simp add: Im_divide power2_eq_square)
  with g3 have "- (4 * x * y) / (5 + 4 * y\<^sup>2) = 1 / 2"
    by (simp add: g3_def)
  moreover have pos: "0 < 5 + 4 * y\<^sup>2"
    by (intro add_pos_nonneg) simp_all
  ultimately have "- (8 * x * y) = 5 + 4 * y\<^sup>2"
    by (simp add: field_simps)
  moreover have "4 * (x + y)\<^sup>2 = 4 * x\<^sup>2 + 8 * x * y + 4 * y\<^sup>2"
    by (simp add: power2_eq_square algebra_simps)
  ultimately have "4 * (x + y)\<^sup>2 + 4 * y\<^sup>2 + 1 = 0"
    using circle by simp
  moreover have "0 \<le> 4 * (x + y)\<^sup>2" "0 \<le> 4 * y\<^sup>2" by simp_all
  ultimately show False by linarith
qed

lemma gsum_nonzero:
  assumes "denom w \<noteq> 0"
  shows "gsum w \<noteq> 0"
proof
  assume z: "gsum w = 0"
  show False
  proof (cases "w = 0")
    case True
    with z show False by (simp add: g_at_0)
  next
    case False
    have "cmod w = 1"
      using assms False gsum_zero(1,2) [OF z] by (rule on_unit_circle)
    then have "g3 w \<noteq> 0" by (rule g3_on_unit_circle)
    with gsum_zero(3) [OF z] show False by simp
  qed
qed

lemma xyz_None_iff: "xyz w = None \<longleftrightarrow> denom w = 0"
  using gsum_nonzero [of w] by (auto simp: xyz_def)

text \<open>
  A grid sample has a rational modulus, and \<open>(3 - sqrt 5) / 2\<close> is irrational.
\<close>

lemma five_dvd_square:
  fixes m :: nat
  assumes "5 dvd m * m"
  shows "5 dvd m"
proof -
  define r where "r = m mod 5"
  have r: "r < 5" by (simp add: r_def)
  have "(m * m) mod 5 = (r * r) mod 5" by (simp add: r_def mod_mult_eq)
  with assms have z: "(r * r) mod 5 = 0" by (simp add: dvd_eq_mod_eq_0)
  from r consider "r = 0" | "r = 1" | "r = 2" | "r = 3" | "r = 4" by linarith
  then have "r = 0" using z by cases simp_all
  then show ?thesis by (simp add: r_def dvd_eq_mod_eq_0)
qed

lemma sqrt5_irrational: "sqrt 5 \<notin> \<rat>"
proof
  assume "sqrt 5 \<in> \<rat>"
  then obtain m n :: nat where n: "n \<noteq> 0" and eq: "\<bar>sqrt 5\<bar> = real m / real n"
    and cop: "coprime m n"
    by (rule Rats_abs_nat_div_natE)
  from eq n have "real m = sqrt 5 * real n" by (simp add: field_simps)
  then have "real m * real m = (sqrt 5 * sqrt 5) * (real n * real n)"
    by (simp only: mult_ac)
  then have "real (m * m) = real (5 * (n * n))" by simp
  then have mn: "m * m = 5 * (n * n)" by (simp only: of_nat_eq_iff)
  then have "5 dvd m * m" by simp
  then have "5 dvd m" by (rule five_dvd_square)
  then obtain k where k: "m = 5 * k" by (elim dvdE)
  with mn have "n * n = 5 * (k * k)" by simp
  then have "5 dvd n * n" by simp
  then have "5 dvd n" by (rule five_dvd_square)
  with cop \<open>5 dvd m\<close> have "is_unit (5::nat)" by (rule coprime_common_divisor)
  then show False by simp
qed

lemma pole_irrational: "pole \<notin> \<rat>"
proof
  assume "pole \<in> \<rat>"
  then have "3 - 2 * pole \<in> \<rat>" by (intro Rats_diff Rats_mult) simp_all
  moreover have "3 - 2 * pole = sqrt 5" by (simp add: pole_def field_simps)
  ultimately show False using sqrt5_irrational by simp
qed

lemma grid_in_disc:
  assumes "w \<in> set (w_grid gen)"
  shows "cmod w \<le> 1" and "w ^ 3 \<noteq> of_real pole"
proof -
  from assms obtain m k where m: "1 \<le> m" "m \<le> n_r gen - 1"
    and w: "w = of_real (of_int m / of_int (n_r gen - 1))
          * exp (\<i> * of_real (of_int k * (2 * pi / of_int (n_phi gen))))"
    using w_grid_samples by blast
  define r :: real where "r = of_int m / of_int (n_r gen - 1)"
  have r0: "0 \<le> r" using m by (simp add: r_def)
  have cm: "cmod w = r"
    using r0 unfolding w r_def [symmetric] by (simp only: cmod_sample abs_of_nonneg)
  have "r \<le> 1" using m by (simp add: r_def)
  with cm show "cmod w \<le> 1" by simp
  have rat: "r ^ 3 \<in> \<rat>" unfolding r_def by (intro Rats_power Rats_divide) simp_all
  show "w ^ 3 \<noteq> of_real pole"
  proof
    assume "w ^ 3 = of_real pole"
    then have "cmod (w ^ 3) = cmod (complex_of_real pole)" by simp
    then have "r ^ 3 = pole"
      using pole_bounds by (simp add: norm_power cm)
    with rat pole_irrational show False by simp
  qed
qed

lemma root_pole: "root 3 pole ^ 3 = pole" "0 \<le> root 3 pole" "root 3 pole \<le> 1"
proof -
  show "root 3 pole ^ 3 = pole"
    using pole_bounds by (intro real_root_pow_pos2) simp_all
  show "0 \<le> root 3 pole" using pole_bounds by simp
  have "root 3 pole \<le> root 3 1"
    using pole_bounds by (subst real_root_le_iff) simp_all
  then show "root 3 pole \<le> 1" by simp
qed

text \<open>
  For \<open>w\<close> in the closed unit disc the exact denominator vanishes, and the exact
  evaluator is undefined, precisely at the three points with
  \<open>w\<^sup>3 = (3 - sqrt 5) / 2\<close>; elsewhere in the disc the norm \<open>g\<close> is nonzero too. The
  exact grid samples are none of these points.
\<close>

lemma xyz_exact_defined:
  "(cmod w \<le> 1 \<longrightarrow>
      (denom w = 0 \<longleftrightarrow> w ^ 3 = of_real pole)
      \<and> (xyz w = None \<longleftrightarrow> w ^ 3 = of_real pole)
      \<and> (w ^ 3 \<noteq> of_real pole \<longrightarrow> gsum w \<noteq> 0))
   \<and> (\<forall>v \<in> set (w_grid gen). cmod v \<le> 1 \<and> v ^ 3 \<noteq> of_real pole)
   \<and> None \<notin> set (fst (build gen))"
proof (intro conjI impI ballI)
  assume w: "cmod w \<le> 1"
  then show d: "denom w = 0 \<longleftrightarrow> w ^ 3 = of_real pole" by (rule denom_zero_iff)
  then show "xyz w = None \<longleftrightarrow> w ^ 3 = of_real pole" by (simp add: xyz_None_iff)
  assume "w ^ 3 \<noteq> of_real pole"
  with d have "denom w \<noteq> 0" by simp
  then show "gsum w \<noteq> 0" by (rule gsum_nonzero)
next
  fix v assume "v \<in> set (w_grid gen)"
  then show "cmod v \<le> 1" and "v ^ 3 \<noteq> of_real pole" by (rule grid_in_disc)+
next
  show "None \<notin> set (fst (build gen))"
  proof
    assume "None \<in> set (fst (build gen))"
    then have "None \<in> xyz ` set (w_grid gen)"
      by (simp add: build_def verts_def xyz_0)
    then obtain v where v: "v \<in> set (w_grid gen)" "xyz v = None"
      by (elim imageE) simp
    from v(1) have "cmod v \<le> 1" and "v ^ 3 \<noteq> of_real pole" by (rule grid_in_disc)+
    with v(2) show False by (simp add: xyz_None_iff denom_zero_iff)
  qed
qed

text \<open>
  One of the three points is the real cube root of \<open>(3 - sqrt 5) / 2\<close>, about 0.7256.
\<close>

lemma denom_vanishes_at_pole:
  "cmod (complex_of_real (root 3 pole)) \<le> 1
   \<and> denom (complex_of_real (root 3 pole)) = 0
   \<and> xyz (complex_of_real (root 3 pole)) = None"
proof -
  have "cmod (complex_of_real (root 3 pole)) \<le> 1"
    using root_pole by simp
  moreover have "complex_of_real (root 3 pole) ^ 3 = of_real pole"
    using root_pole(1) by (simp only: of_real_power [symmetric])
  ultimately show ?thesis
    by (simp add: denom_zero_iff xyz_None_iff)
qed

text \<open>
  A point with rational coordinates, and so every point that a pair of floats can
  hold, is no zero of the exact denominator.
\<close>

lemma Re_cube_rational:
  assumes "Re w \<in> \<rat>" and "Im w \<in> \<rat>"
  shows "Re (w ^ 3) \<in> \<rat>"
proof -
  have "Re (w ^ 3) = Re w * Re w * Re w - 3 * (Re w * Im w * Im w)"
    by (simp add: power3_eq_cube algebra_simps)
  also have "\<dots> \<in> \<rat>"
    using assms by (intro Rats_diff Rats_mult) simp_all
  finally show ?thesis .
qed

lemma xyz_defined_rational:
  assumes "Re w \<in> \<rat>" and "Im w \<in> \<rat>"
  shows "denom w \<noteq> 0" and "gsum w \<noteq> 0" and "xyz w \<noteq> None"
proof -
  have r: "Re (w ^ 3) \<in> \<rat>" using assms by (rule Re_cube_rational)
  show d: "denom w \<noteq> 0"
  proof
    assume "denom w = 0"
    then consider "w ^ 3 = of_real pole" | "w ^ 3 = - of_real ((3 + sqrt 5) / 2)"
      by (auto simp: denom_factor add_eq_0_iff2)
    then show False
    proof cases
      case 1
      then have "Re (w ^ 3) = pole" by simp
      with r pole_irrational show False by simp
    next
      case 2
      then have "Re (w ^ 3) = - ((3 + sqrt 5) / 2)" by simp
      with r have "- ((3 + sqrt 5) / 2) \<in> \<rat>" by simp
      then have "- 2 * (- ((3 + sqrt 5) / 2)) - 3 \<in> \<rat>"
        by (intro Rats_diff Rats_mult) simp_all
      moreover have "- 2 * (- ((3 + sqrt 5) / 2)) - 3 = sqrt 5" by (simp add: field_simps)
      ultimately show False using sqrt5_irrational by simp
    qed
  qed
  then show "gsum w \<noteq> 0" by (rule gsum_nonzero)
  from d show "xyz w \<noteq> None" by (simp add: xyz_None_iff)
qed

end
